theory Spec2Isabelle
  imports Main
begin

section \<open>The Simon game of simon.c\<close>

text \<open>
  A shallow embedding of \<^verbatim>\<open>src/simon.c\<close>: the game's three variables (the
  locals \<^verbatim>\<open>state\<close>, \<^verbatim>\<open>givenSeq\<close> and \<^verbatim>\<open>diff\<close> of \<^verbatim>\<open>main\<close>), the hardware the code
  talks to (touch pads, pseudo-random generator, LEDs, display, delay loop), and the
  functions \<^verbatim>\<open>getButton\<close>, \<^verbatim>\<open>countDown\<close>, \<^verbatim>\<open>playSequence\<close>, \<^verbatim>\<open>getSpeed\<close>,
  \<^verbatim>\<open>checkSequence\<close>, \<^verbatim>\<open>displayButton\<close>, \<^verbatim>\<open>errorMsg\<close>, \<^verbatim>\<open>congratsMsg\<close> and the
  loop of \<^verbatim>\<open>main\<close>.

  C \<^verbatim>\<open>int\<close> values are modelled as \<^typ>\<open>int\<close>: the only arithmetic of the program is
  \<^verbatim>\<open>++\<close> on a loop counter or on a level below 64, which never leaves the range of a
  16-bit \<^verbatim>\<open>int\<close>.
\<close>

subsection \<open>Constants\<close>

definition NUM_KEYS :: int where "NUM_KEYS = 5"

definition WELCOME :: int where "WELCOME = 0"
definition PLAYSEQ :: int where "PLAYSEQ = 1"
definition CHECSEQ :: int where "CHECSEQ = 2"
definition ERROR :: int where "ERROR = 3"
definition CONGRATS :: int where "CONGRATS = 4"

definition NULL_BUTTON :: int where "NULL_BUTTON = - 1"
definition X :: int where "X = 0"
definition Square :: int where "Square = 1"
definition Octogon :: int where "Octogon = 2"
definition Triangle :: int where "Triangle = 3"
definition Circle :: int where "Circle = 4"

definition MAX_SEQ_LENGTH :: int where "MAX_SEQ_LENGTH = 64"

subsection \<open>Hardware\<close>

text \<open>
  The capacitive-touch elements \<^verbatim>\<open>TI_CAPT_Buttons\<close> may point to: the five pads of
  \<^verbatim>\<open>address_list\<close>, or some other element.
\<close>

datatype element = PAD1 | PAD2 | PAD3 | PAD4 | PAD5 | OtherElement

definition address_list :: "element list" where
  "address_list = [PAD1, PAD2, PAD3, PAD4, PAD5]"

text \<open>The LED bits of port 1 and the table \<^verbatim>\<open>ledMask\<close>.\<close>

datatype led = LED4 | LED5 | LED6 | LED7 | LED8

definition ledMask :: "led list" where
  "ledMask = [LED8, LED7, LED6, LED5, LED4]"

text \<open>
  What the program does to the outside, in order: writes to the LED port
  (\<open>LedsOff\<close> is \<^verbatim>\<open>P1OUT = P1OUT & ~(BIT5|BIT4|BIT3|BIT2|BIT1)\<close>, \<open>LedOn l\<close> is
  \<^verbatim>\<open>P1OUT |= l\<close>, \<open>LedOff l\<close> is \<^verbatim>\<open>P1OUT &= ~l\<close>), calls of the graphics library and
  calls of \<^verbatim>\<open>swDelay\<close>.
\<close>

datatype event =
    LedsOff
  | LedOn led
  | LedOff led
  | GrClearDisplay
  | GrStringDrawCentered string int int
  | GrFlush
  | SwDelay int

text \<open>
  How a run stops short of returning: \<open>Blocked\<close> is the polling loop of \<^verbatim>\<open>getButton\<close>
  still running when the recorded touch history ends (it has no timeout); the other two
  are array accesses outside the array, which C leaves undefined.
\<close>

datatype stop = Blocked | SeqOutOfBounds | LedOutOfBounds

text \<open>
  The machine: the three variables of \<^verbatim>\<open>main\<close>, then the environment. \<open>touch\<close> holds
  the results the coming calls of \<^verbatim>\<open>TI_CAPT_Buttons\<close> will give (\<open>None\<close> is the null
  pointer: no key), \<open>rand_src\<close> the results of the calls of \<^verbatim>\<open>rand\<close> by call number,
  \<open>rand_calls\<close> the number of calls made so far, \<open>trace\<close> the outputs so far.
\<close>

record machine =
  state :: int
  givenSeq :: "int list"
  diff :: int
  touch :: "element option list"
  rand_src :: "nat \<Rightarrow> nat"
  rand_calls :: nat
  trace :: "event list"

definition emit :: "event list \<Rightarrow> machine \<Rightarrow> machine" where
  "emit es m = m\<lparr>trace := trace m @ es\<rparr>"

text \<open>Reading \<^verbatim>\<open>sequence[i]\<close>, writing \<^verbatim>\<open>sequence[i] = v\<close> and reading \<^verbatim>\<open>ledMask[i]\<close>.\<close>

definition seq_at :: "int list \<Rightarrow> int \<Rightarrow> stop + int" where
  "seq_at sequence i =
     (if 0 \<le> i \<and> i < int (length sequence) then Inr (sequence ! nat i)
      else Inl SeqOutOfBounds)"

definition seq_store :: "int list \<Rightarrow> int \<Rightarrow> int \<Rightarrow> stop + int list" where
  "seq_store sequence i v =
     (if 0 \<le> i \<and> i < int (length sequence) then Inr (sequence[nat i := v])
      else Inl SeqOutOfBounds)"

definition ledMask_at :: "int \<Rightarrow> stop + led" where
  "ledMask_at i =
     (if 0 \<le> i \<and> i < NUM_KEYS then Inr (ledMask ! nat i) else Inl LedOutOfBounds)"

subsection \<open>getSpeed\<close>

definition getSpeed :: "int \<Rightarrow> int" where
  "getSpeed difficulty =
     (if difficulty < 13 then 2
      else if difficulty \<ge> 13 \<and> difficulty < 26 then 1
      else 0)"

subsection \<open>getButton\<close>

text \<open>
  The inner \<^verbatim>\<open>for\<close> loop over the keys: each index whose entry of \<^verbatim>\<open>address_list\<close> is
  the touched element lights its LED, becomes \<^verbatim>\<open>buttonPressed\<close> and waits one delay.
\<close>

fun matchKeys :: "element \<Rightarrow> nat list \<Rightarrow> int \<times> event list \<Rightarrow> int \<times> event list" where
  "matchKeys keypressed [] acc = acc"
| "matchKeys keypressed (i # is) (buttonPressed, tr) =
     (if keypressed = address_list ! i
      then matchKeys keypressed is (int i, tr @ [LedOn (ledMask ! i), SwDelay 1])
      else matchKeys keypressed is (buttonPressed, tr))"

text \<open>
  The \<^verbatim>\<open>do ... while (buttonPressed == NULL_BUTTON)\<close> loop: one poll of the touch pads
  per turn.
\<close>

fun pollButtons ::
  "int \<Rightarrow> element option list \<Rightarrow> event list \<Rightarrow> stop + (int \<times> element option list \<times> event list)"
where
  "pollButtons buttonPressed [] tr = Inl Blocked"
| "pollButtons buttonPressed (keypressed # rest) tr =
     (let (buttonPressed', tr') =
            (case keypressed of
               None \<Rightarrow> (buttonPressed, tr @ [LedsOff])
             | Some k \<Rightarrow> matchKeys k [0 ..< nat NUM_KEYS] (buttonPressed, tr @ [LedsOff]))
      in if buttonPressed' = NULL_BUTTON then pollButtons buttonPressed' rest tr'
         else Inr (buttonPressed', rest, tr'))"

definition getButton :: "machine \<Rightarrow> stop + (int \<times> machine)" where
  "getButton m =
     (case pollButtons NULL_BUTTON (touch m) (trace m) of
        Inl e \<Rightarrow> Inl e
      | Inr (buttonPressed, rest, tr) \<Rightarrow> Inr (buttonPressed, m\<lparr>touch := rest, trace := tr\<rparr>))"

lemma pollButtons_consumes:
  "pollButtons b ps tr = Inr (b', ps', tr') \<Longrightarrow> length ps' < length ps"
proof (induction ps arbitrary: b tr)
  case Nil
  then show ?case by simp
next
  case (Cons p ps)
  then show ?case
    by (fastforce simp: Let_def split: prod.splits if_splits)
qed

lemma getButton_consumes:
  "getButton m = Inr (b, m') \<Longrightarrow> length (touch m') < length (touch m)"
  by (auto simp: getButton_def split: sum.splits dest: pollButtons_consumes)

subsection \<open>The welcome screen and the countdown\<close>

definition dispWelcome :: "machine \<Rightarrow> machine" where
  "dispWelcome m =
     emit [GrClearDisplay,
           GrStringDrawCentered ''Welcome to'' 51 8,
           GrStringDrawCentered ''Simon Says'' 51 24,
           GrStringDrawCentered ''Press X'' 51 40,
           GrStringDrawCentered ''to Start'' 51 56,
           GrFlush] m"

text \<open>
  The loop of the \<^verbatim>\<open>WELCOME\<close> case of \<^verbatim>\<open>main\<close>:
  \<^verbatim>\<open>do { button = getButton(); } while ((button == NULL_BUTTON) || (button != X));\<close>
\<close>

function waitForX :: "machine \<Rightarrow> stop + machine" where
  "waitForX m =
     (case getButton m of
        Inl e \<Rightarrow> Inl e
      | Inr (button, m') \<Rightarrow>
          if button = NULL_BUTTON \<or> button \<noteq> X then waitForX m' else Inr m')"
  by pat_completeness auto
termination
  by (relation "measure (\<lambda>m. length (touch m))") (auto dest: getButton_consumes)

declare waitForX.simps [simp del]

definition countDown :: "machine \<Rightarrow> machine" where
  "countDown m =
     (emit [GrClearDisplay, GrStringDrawCentered ''3'' 51 32, GrFlush, SwDelay 3,
            GrClearDisplay, GrStringDrawCentered ''2'' 51 32, GrFlush, SwDelay 3,
            GrClearDisplay, GrStringDrawCentered ''1'' 51 32, GrFlush, SwDelay 3,
            GrClearDisplay, GrStringDrawCentered ''Go!'' 51 32, GrFlush, SwDelay 3] m)
     \<lparr>state := PLAYSEQ\<rparr>"

subsection \<open>playSequence\<close>

text \<open>
  The playback loop \<^verbatim>\<open>for (playLED = 0; playLED <= level; playLED++)\<close>; its body,
  \<open>blink\<close>, is LED on, wait, LED off, wait, each wait being
  \<^verbatim>\<open>swDelay(getSpeed(level))\<close>.
\<close>

definition blink :: "int \<Rightarrow> led \<Rightarrow> event list" where
  "blink level l =
     [LedOn l, SwDelay (getSpeed level), LedOff l, SwDelay (getSpeed level)]"

function playLEDs :: "int list \<Rightarrow> int \<Rightarrow> int \<Rightarrow> event list \<Rightarrow> stop + event list" where
  "playLEDs sequence level playLED tr =
     (if playLED \<le> level then
        (case seq_at sequence playLED of
           Inl e \<Rightarrow> Inl e
         | Inr pad \<Rightarrow>
             (case ledMask_at pad of
                Inl e \<Rightarrow> Inl e
              | Inr l \<Rightarrow>
                  playLEDs sequence level (playLED + 1) (tr @ blink level l)))
      else Inr tr)"
  by pat_completeness auto
termination
  by (relation "measure (\<lambda>(sequence, level, playLED, tr). nat (level + 1 - playLED))") auto

declare playLEDs.simps [simp del]

definition playSequence :: "machine \<Rightarrow> stop + machine" where
  "playSequence m =
     (let m1 = emit [LedsOff] m;
          level = diff m1;
          m2 = emit [GrClearDisplay,
                     GrStringDrawCentered ''Playing'' 51 24,
                     GrStringDrawCentered ''Sequence!'' 51 40,
                     GrFlush] m1;
          randPad = int (rand_src m2 (rand_calls m2)) mod NUM_KEYS;
          m3 = m2\<lparr>rand_calls := Suc (rand_calls m2)\<rparr>
      in case seq_store (givenSeq m3) level randPad of
           Inl e \<Rightarrow> Inl e
         | Inr sequence \<Rightarrow>
             (case playLEDs sequence level 0 (trace m3) of
                Inl e \<Rightarrow> Inl e
              | Inr tr \<Rightarrow> Inr (m3\<lparr>givenSeq := sequence, trace := tr, state := CHECSEQ\<rparr>)))"

subsection \<open>checkSequence\<close>

definition displayButton :: "int \<Rightarrow> machine \<Rightarrow> machine" where
  "displayButton button m =
     emit [GrFlush]
       (if button = X then emit [GrStringDrawCentered ''1'' 10 40] m
        else if button = Square then emit [GrStringDrawCentered ''2'' 30 40] m
        else if button = Octogon then emit [GrStringDrawCentered ''3'' 50 40] m
        else if button = Triangle then emit [GrStringDrawCentered ''4'' 70 40] m
        else if button = Circle then emit [GrStringDrawCentered ''5'' 90 40] m
        else m)"

definition checkingMsg :: "event list" where
  "checkingMsg =
     [GrStringDrawCentered ''Checking'' 51 8, GrStringDrawCentered ''Sequence!'' 51 24, GrFlush]"

text \<open>
  The loop \<^verbatim>\<open>for (currentButton = 0; currentButton <= level; ++currentButton)\<close>; the
  result carries \<^verbatim>\<open>isSeqCorrect\<close>, 0 after the \<^verbatim>\<open>break\<close> at a wrong button.
\<close>

function checkButtons :: "int \<Rightarrow> int \<Rightarrow> machine \<Rightarrow> stop + (int \<times> machine)" where
  "checkButtons level currentButton m =
     (if currentButton \<le> level then
        (case getButton (emit checkingMsg m) of
           Inl e \<Rightarrow> Inl e
         | Inr (button, m1) \<Rightarrow>
             (let m2 = emit (GrClearDisplay # checkingMsg) (displayButton button m1)
              in case seq_at (givenSeq m2) currentButton of
                   Inl e \<Rightarrow> Inl e
                 | Inr expected \<Rightarrow>
                     if button \<noteq> expected then Inr (0, m2)
                     else checkButtons level (currentButton + 1) m2))
      else Inr (1, m))"
  by pat_completeness auto
termination
  by (relation "measure (\<lambda>(level, currentButton, m). nat (level + 1 - currentButton))") auto

declare checkButtons.simps [simp del]

definition checkSequence :: "machine \<Rightarrow> stop + machine" where
  "checkSequence m =
     (let level = diff m
      in case checkButtons level 0 (emit [GrClearDisplay] m) of
           Inl e \<Rightarrow> Inl e
         | Inr (isSeqCorrect, m1) \<Rightarrow>
             if isSeqCorrect \<noteq> 0 then
               (let m2 = emit [GrClearDisplay,
                               GrStringDrawCentered ''GOOD JOB!'' 51 32,
                               GrFlush] m1
                in if level < MAX_SEQ_LENGTH
                   then Inr (m2\<lparr>diff := level + 1, state := PLAYSEQ\<rparr>)
                   else Inr (m2\<lparr>state := CONGRATS\<rparr>))
             else Inr (m1\<lparr>state := ERROR\<rparr>))"

subsection \<open>errorMsg and congratsMsg\<close>

definition errorMsg :: "machine \<Rightarrow> machine" where
  "errorMsg m =
     (emit [GrClearDisplay,
            GrStringDrawCentered ''You Lost!'' 51 8,
            GrStringDrawCentered ''Sorry,'' 51 24,
            GrStringDrawCentered ''Thanks for'' 51 40,
            GrStringDrawCentered ''Playing!'' 51 56,
            GrFlush, SwDelay 1] m)
     \<lparr>state := WELCOME\<rparr>"

definition congratsMsg :: "machine \<Rightarrow> machine" where
  "congratsMsg m =
     (emit [GrClearDisplay,
            GrStringDrawCentered ''CONGRATS,!'' 51 8,
            GrStringDrawCentered ''YOU WON!'' 51 24,
            GrStringDrawCentered ''Thanks for'' 51 40,
            GrStringDrawCentered ''Playing!'' 51 56,
            GrFlush, SwDelay 1] m)
     \<lparr>state := WELCOME\<rparr>"

subsection \<open>main\<close>

text \<open>
  The variables of \<^verbatim>\<open>main\<close> as initialised, after \<^verbatim>\<open>initSys\<close> (which switches the LEDs
  off and clears the display), given the touch history and the generator.
\<close>

definition main_init :: "element option list \<Rightarrow> (nat \<Rightarrow> nat) \<Rightarrow> machine" where
  "main_init ts rnd =
     \<lparr>state = WELCOME, givenSeq = replicate (nat MAX_SEQ_LENGTH) 0, diff = 0,
      touch = ts, rand_src = rnd, rand_calls = 0,
      trace = [LedsOff, GrClearDisplay, GrFlush]\<rparr>"

text \<open>One turn of the \<^verbatim>\<open>while (1)\<close> loop: the \<^verbatim>\<open>switch (state)\<close>.\<close>

definition main_step :: "machine \<Rightarrow> stop + machine" where
  "main_step m =
     (if state m = WELCOME then
        (case waitForX (dispWelcome m) of
           Inl e \<Rightarrow> Inl e
         | Inr m' \<Rightarrow> Inr (countDown m'))
      else if state m = PLAYSEQ then playSequence m
      else if state m = CHECSEQ then checkSequence m
      else if state m = ERROR then Inr (errorMsg m)
      else if state m = CONGRATS then Inr (congratsMsg m)
      else Inr m)"

text \<open>The first \<open>n\<close> turns of the loop.\<close>

fun main_loop :: "nat \<Rightarrow> machine \<Rightarrow> stop + machine" where
  "main_loop 0 m = Inr m"
| "main_loop (Suc n) m =
     (case main_step m of
        Inl e \<Rightarrow> Inl e
      | Inr m' \<Rightarrow> main_loop n m')"

subsection \<open>The player's inputs\<close>

text \<open>
  The input stream the game sees in a touch history: the touches of a pad of
  \<^verbatim>\<open>address_list\<close>, in order, each as its button number.
\<close>

fun pad_button :: "element \<Rightarrow> int option" where
  "pad_button PAD1 = Some X"
| "pad_button PAD2 = Some Square"
| "pad_button PAD3 = Some Octogon"
| "pad_button PAD4 = Some Triangle"
| "pad_button PAD5 = Some Circle"
| "pad_button OtherElement = None"

fun presses :: "element option list \<Rightarrow> int list" where
  "presses [] = []"
| "presses (None # ts) = presses ts"
| "presses (Some k # ts) =
     (case pad_button k of None \<Rightarrow> presses ts | Some b \<Rightarrow> b # presses ts)"

subsection \<open>Input and output only\<close>

text \<open>
  \<open>io_only m m'\<close>: from \<open>m\<close> to \<open>m'\<close> the variables of \<^verbatim>\<open>main\<close> and the generator are
  untouched; the trace has grown and a prefix of the touch history has been used up.
\<close>

definition io_only :: "machine \<Rightarrow> machine \<Rightarrow> bool" where
  "io_only m m' \<longleftrightarrow>
     state m' = state m \<and> givenSeq m' = givenSeq m \<and> diff m' = diff m \<and>
     rand_src m' = rand_src m \<and> rand_calls m' = rand_calls m \<and>
     (\<exists>es. trace m' = trace m @ es) \<and> (\<exists>used. touch m = used @ touch m')"

subsection \<open>Notions used to state the claims\<close>

text \<open>What \<^verbatim>\<open>playSequence\<close> puts out before the playback starts.\<close>

definition playingMsg :: "event list" where
  "playingMsg = [LedsOff, GrClearDisplay, GrStringDrawCentered ''Playing'' 51 24,
                     GrStringDrawCentered ''Sequence!'' 51 40, GrFlush]"

text \<open>
  \<open>drawn m k\<close> is the pad the \<open>k\<close>-th coming call of \<^verbatim>\<open>rand\<close> selects
  (\<^verbatim>\<open>rand() % NUM_KEYS\<close>); \<open>perfect_play m n\<close> is what a player presses who repeats each
  of the next \<open>n\<close> rounds correctly: the first drawn pad, then the first two, and so on.
\<close>

definition drawn :: "machine \<Rightarrow> nat \<Rightarrow> int" where
  "drawn m k = int (rand_src m (rand_calls m + k)) mod NUM_KEYS"

definition perfect_play :: "machine \<Rightarrow> nat \<Rightarrow> int list" where
  "perfect_play m n = concat (map (\<lambda>r. map (drawn m) [0 ..< Suc r]) [0 ..< n])"

text \<open>
  An example: the stored sequence starts X, Square, Octogon, the level is 2, and the
  player touches X, then Triangle, Octogon, Circle.
\<close>

definition abx :: machine where
  "abx = \<lparr>state = CHECSEQ, givenSeq = [0, 1, 2] @ replicate 61 0, diff = 2,
          touch = [Some PAD1, None, Some PAD4, Some PAD3, Some PAD5],
          rand_src = id, rand_calls = 3, trace = []\<rparr>"

text \<open>
  The same game after a lost round (state \<^verbatim>\<open>ERROR\<close>), and about to play level 2 (state
  \<^verbatim>\<open>PLAYSEQ\<close>) with the generator giving 3 next.
\<close>

definition lost :: machine where
  "lost = \<lparr>state = ERROR, givenSeq = [0, 1, 2] @ replicate 61 0, diff = 2,
          touch = [], rand_src = id, rand_calls = 3, trace = []\<rparr>"

definition replay :: machine where
  "replay = \<lparr>state = PLAYSEQ, givenSeq = [0, 1, 2] @ replicate 61 0, diff = 2,
          touch = [], rand_src = id, rand_calls = 3, trace = []\<rparr>"

text \<open>
  A game about to play level 13, the first of the medium tier, with only X stored so far
  and the generator giving 3 next.
\<close>

definition faster :: machine where
  "faster = \<lparr>state = PLAYSEQ, givenSeq = replicate 64 0, diff = 13,
          touch = [], rand_src = id, rand_calls = 3, trace = []\<rparr>"

text \<open>
  A fresh game about to play its first round; the generator gives 2, then 3 (Octogon,
  then Triangle), and the player repeats both rounds correctly, then touches X.
\<close>

definition fresh :: machine where
  "fresh = \<lparr>state = PLAYSEQ, givenSeq = replicate 64 0, diff = 0,
          touch = [Some PAD3, None, Some PAD3, Some PAD4, Some PAD1],
          rand_src = id, rand_calls = 2, trace = []\<rparr>"

lemmas state_defs = WELCOME_def PLAYSEQ_def CHECSEQ_def ERROR_def CONGRATS_def
lemmas button_defs = NULL_BUTTON_def X_def Square_def Octogon_def Triangle_def Circle_def


section \<open>Auxiliary facts\<close>


lemma upt_keys: "[0 ..< nat NUM_KEYS] = [0, 1, 2, 3, 4]"
  by (simp add: NUM_KEYS_def upt_rec)

lemma matchKeys_pad:
  "matchKeys k [0 ..< nat NUM_KEYS] (b, tr) =
     (case pad_button k of
        None \<Rightarrow> (b, tr)
      | Some i \<Rightarrow> (i, tr @ [LedOn (ledMask ! nat i), SwDelay 1]))"
  by (cases k) (simp_all add: upt_keys address_list_def button_defs)

lemma pad_button_range: "pad_button k = Some b \<Longrightarrow> 0 \<le> b \<and> b < NUM_KEYS \<and> b \<noteq> NULL_BUTTON"
  by (cases k) (auto simp: button_defs NUM_KEYS_def)

lemma pad_button_address: "pad_button k \<noteq> None \<longleftrightarrow> k \<in> set address_list"
  by (cases k) (auto simp: address_list_def)

lemma pollButtons_no_press:
  "presses ps = [] \<Longrightarrow> pollButtons NULL_BUTTON ps tr = Inl Blocked"
proof (induction ps arbitrary: tr)
  case Nil
  show ?case by simp
next
  case (Cons p ps)
  show ?case
  proof (cases p)
    case None
    with Cons show ?thesis by simp
  next
    case (Some k)
    with Cons.prems have "pad_button k = None" by (simp split: option.splits)
    with Some Cons show ?thesis by (simp add: matchKeys_pad split: option.splits)
  qed
qed

lemma pollButtons_press:
  "presses ps = b # bs \<Longrightarrow>
   \<exists>used ps' es. ps = used @ ps' \<and>
      pollButtons NULL_BUTTON ps tr = Inr (b, ps', tr @ es) \<and> presses ps' = bs"
proof (induction ps arbitrary: tr)
  case Nil
  then show ?case by simp
next
  case (Cons p ps)
  show ?case
  proof (cases p)
    case None
    with Cons.prems have "presses ps = b # bs" by simp
    from Cons.IH [OF this, of "tr @ [LedsOff]"] obtain used ps' es
      where "ps = used @ ps'"
        "pollButtons NULL_BUTTON ps (tr @ [LedsOff]) = Inr (b, ps', (tr @ [LedsOff]) @ es)"
        "presses ps' = bs" by blast
    with None have "p # ps = (p # used) @ ps'"
      "pollButtons NULL_BUTTON (p # ps) tr = Inr (b, ps', tr @ (LedsOff # es))"
      by simp_all
    with \<open>presses ps' = bs\<close> show ?thesis by blast
  next
    case (Some k)
    show ?thesis
    proof (cases "pad_button k")
      case None
      with Some Cons.prems have "presses ps = b # bs" by simp
      from Cons.IH [OF this, of "tr @ [LedsOff]"] obtain used ps' es
        where "ps = used @ ps'"
          "pollButtons NULL_BUTTON ps (tr @ [LedsOff]) = Inr (b, ps', (tr @ [LedsOff]) @ es)"
          "presses ps' = bs" by blast
      with None Some have "p # ps = (p # used) @ ps'"
        "pollButtons NULL_BUTTON (p # ps) tr = Inr (b, ps', tr @ (LedsOff # es))"
        by (simp_all add: matchKeys_pad)
      with \<open>presses ps' = bs\<close> show ?thesis by blast
    next
      case (Some i)
      with \<open>p = Some k\<close> Cons.prems have "i = b" "presses ps = bs" by simp_all
      moreover from Some have "i \<noteq> NULL_BUTTON" by (simp add: pad_button_range)
      ultimately have "p # ps = [p] @ ps"
        "pollButtons NULL_BUTTON (p # ps) tr =
           Inr (b, ps, tr @ [LedsOff, LedOn (ledMask ! nat b), SwDelay 1])"
        "presses ps = bs"
        using Some \<open>p = Some k\<close> by (simp_all add: matchKeys_pad)
      then show ?thesis by blast
    qed
  qed
qed

lemma presses_range: "b \<in> set (presses ps) \<Longrightarrow> 0 \<le> b \<and> b < NUM_KEYS \<and> b \<noteq> NULL_BUTTON"
  by (induction ps rule: presses.induct) (auto split: option.splits dest: pad_button_range)

lemma presses_Nil_iff: "presses ps = [] \<longleftrightarrow> (\<forall>k \<in> set address_list. Some k \<notin> set ps)"
  by (induction ps rule: presses.induct) (auto split: option.splits simp: pad_button_address[symmetric])

lemma getButton_no_press:
  "presses (touch m) = [] \<Longrightarrow> getButton m = Inl Blocked"
  by (simp add: getButton_def pollButtons_no_press)

lemma getButton_press:
  assumes "presses (touch m) = b # bs"
  shows "\<exists>used ps es. touch m = used @ ps \<and>
           getButton m = Inr (b, m\<lparr>touch := ps, trace := trace m @ es\<rparr>) \<and> presses ps = bs"
proof -
  from pollButtons_press [OF assms, of "trace m"] obtain used ps' es
    where "touch m = used @ ps'"
      and "pollButtons NULL_BUTTON (touch m) (trace m) = Inr (b, ps', trace m @ es)"
      and "presses ps' = bs" by blast
  then show ?thesis by (auto simp: getButton_def)
qed


lemma io_only_refl: "io_only m m"
  by (simp add: io_only_def)

lemma io_only_trans: "io_only a b \<Longrightarrow> io_only b c \<Longrightarrow> io_only a c"
  by (auto simp: io_only_def)

lemma io_only_emit: "io_only m (emit es m)"
  by (simp add: io_only_def emit_def)

lemma io_only_displayButton: "io_only m (displayButton b m)"
  by (simp add: io_only_def displayButton_def emit_def)

lemma touch_emit: "touch (emit es m) = touch m"
  by (simp add: emit_def)

lemma touch_displayButton: "touch (displayButton b m) = touch m"
  by (simp add: displayButton_def emit_def)

lemma getButton_io: "getButton m = Inr (b, m') \<Longrightarrow> io_only m m'"
proof (cases "presses (touch m)")
  case Nil
  assume "getButton m = Inr (b, m')"
  with getButton_no_press [OF Nil] show ?thesis by simp
next
  case (Cons c cs)
  assume r: "getButton m = Inr (b, m')"
  from getButton_press [OF Cons] r show ?thesis by (auto simp: io_only_def)
qed

lemma getButton_press_io:
  assumes "presses (touch m) = b # bs"
  shows "\<exists>m'. getButton m = Inr (b, m') \<and> presses (touch m') = bs \<and> io_only m m'"
proof -
  from getButton_press [OF assms] obtain used ps es
    where g: "getButton m = Inr (b, m\<lparr>touch := ps, trace := trace m @ es\<rparr>)"
      and p: "presses ps = bs" by blast
  from getButton_io [OF g] g p show ?thesis by simp
qed

text \<open>One turn of the loop of \<^verbatim>\<open>checkSequence\<close>, from the next press on.\<close>

lemma checkButtons_turn:
  assumes c: "0 \<le> c" "c \<le> level" "c < int (length (givenSeq m))"
    and p: "presses (touch m) = b # bs"
  shows "\<exists>m2. io_only m m2 \<and> presses (touch m2) = bs \<and>
           checkButtons level c m =
             (if b \<noteq> givenSeq m ! nat c then Inr (0, m2)
              else checkButtons level (c + 1) m2)"
proof -
  from p have "presses (touch (emit checkingMsg m)) = b # bs" by (simp add: touch_emit)
  from getButton_press_io [OF this] obtain m1
    where g: "getButton (emit checkingMsg m) = Inr (b, m1)"
      and p1: "presses (touch m1) = bs"
      and io1: "io_only (emit checkingMsg m) m1" by blast
  define m2 where "m2 = emit (GrClearDisplay # checkingMsg) (displayButton b m1)"
  have io: "io_only m m2" unfolding m2_def
    by (blast intro: io_only_trans io_only_emit io1 io_only_displayButton)
  then have s: "givenSeq m2 = givenSeq m" by (simp add: io_only_def)
  have p2: "presses (touch m2) = bs"
    by (simp add: m2_def touch_emit touch_displayButton p1)
  have "checkButtons level c m =
          (if b \<noteq> givenSeq m ! nat c then Inr (0, m2) else checkButtons level (c + 1) m2)"
    using c g s by (subst checkButtons.simps) (simp add: m2_def Let_def seq_at_def)
  with io p2 show ?thesis by blast
qed

lemma checkButtons_io:
  "checkButtons level c m = Inr (r, m') \<Longrightarrow> io_only m m'"
proof (induction level c m rule: checkButtons.induct)
  case (1 level c m)
  show ?case
  proof (cases "c \<le> level")
    case False
    then have "checkButtons level c m = Inr (1, m)" by (subst checkButtons.simps) simp
    with "1.prems" show ?thesis by (simp add: io_only_refl)
  next
    case True
    with "1.prems" obtain b m1 where g: "getButton (emit checkingMsg m) = Inr (b, m1)"
      by (subst (asm) checkButtons.simps) (auto split: sum.splits)
    define m2 where "m2 = emit (GrClearDisplay # checkingMsg) (displayButton b m1)"
    have io: "io_only m m2" unfolding m2_def
      by (blast intro: io_only_trans io_only_emit getButton_io [OF g] io_only_displayButton)
    have eq: "checkButtons level c m =
        (case seq_at (givenSeq m2) c of
           Inl e \<Rightarrow> Inl e
         | Inr expected \<Rightarrow>
             if b \<noteq> expected then Inr (0, m2) else checkButtons level (c + 1) m2)"
      unfolding m2_def using True g by (subst checkButtons.simps) (simp add: Let_def)
    with "1.prems" obtain x where x: "seq_at (givenSeq m2) c = Inr x"
      by (auto split: sum.splits)
    show ?thesis
    proof (cases "b \<noteq> x")
      case True
      with "1.prems" eq x have "m' = m2" by simp
      with io show ?thesis by simp
    next
      case False
      with "1.prems" eq x have "checkButtons level (c + 1) m2 = Inr (r, m')" by simp
      from "1.IH" [OF \<open>c \<le> level\<close> g refl m2_def x _ this] False
      have "io_only m2 m'" by simp
      with io show ?thesis by (rule io_only_trans)
    qed
  qed
qed

lemma checkButtons_mismatch:
  assumes "0 \<le> c" "c + int n \<le> level" "nat c + n < length (givenSeq m)"
    and "n < length (presses (touch m))"
    and "\<forall>k<n. presses (touch m) ! k = givenSeq m ! (nat c + k)"
    and "presses (touch m) ! n \<noteq> givenSeq m ! (nat c + n)"
  shows "\<exists>m'. checkButtons level c m = Inr (0, m') \<and> io_only m m' \<and>
           presses (touch m') = drop (Suc n) (presses (touch m))"
  using assms
proof (induction n arbitrary: c m)
  case 0
  then obtain b bs where p: "presses (touch m) = b # bs"
    by (cases "presses (touch m)") auto
  from 0 have "0 \<le> c" "c \<le> level" "c < int (length (givenSeq m))" by auto
  from checkButtons_turn [OF this p] 0 p show ?case by auto
next
  case (Suc n)
  then obtain b bs where p: "presses (touch m) = b # bs"
    by (cases "presses (touch m)") auto
  from Suc.prems have "0 \<le> c" "c \<le> level" "c < int (length (givenSeq m))" by auto
  from checkButtons_turn [OF this p] obtain m2
    where io: "io_only m m2" and p2: "presses (touch m2) = bs"
      and ch: "checkButtons level c m =
             (if b \<noteq> givenSeq m ! nat c then Inr (0, m2)
              else checkButtons level (c + 1) m2)" by blast
  from io have s: "givenSeq m2 = givenSeq m" by (simp add: io_only_def)
  from Suc.prems(5) p have "b = givenSeq m ! nat c" by auto
  with ch have ch': "checkButtons level c m = checkButtons level (c + 1) m2" by simp
  have n: "nat (c + 1) = Suc (nat c)" using \<open>0 \<le> c\<close> by simp
  have "\<exists>m'. checkButtons level (c + 1) m2 = Inr (0, m') \<and> io_only m2 m' \<and>
           presses (touch m') = drop (Suc n) (presses (touch m2))"
  proof (rule Suc.IH)
    show "0 \<le> c + 1" using \<open>0 \<le> c\<close> by simp
    show "c + 1 + int n \<le> level" using Suc.prems(2) by simp
    show "nat (c + 1) + n < length (givenSeq m2)" using Suc.prems(3) s n by simp
    show "n < length (presses (touch m2))" using Suc.prems(4) p p2 by simp
    show "\<forall>k<n. presses (touch m2) ! k = givenSeq m2 ! (nat (c + 1) + k)"
      using Suc.prems(5) p p2 s n by auto
    show "presses (touch m2) ! n \<noteq> givenSeq m2 ! (nat (c + 1) + n)"
      using Suc.prems(6) p p2 s n by auto
  qed
  then obtain m' where "checkButtons level (c + 1) m2 = Inr (0, m')" "io_only m2 m'"
    "presses (touch m') = drop (Suc n) (presses (touch m2))" by blast
  with ch' io p p2 show ?case by (auto intro: io_only_trans)
qed

lemma checkButtons_pass:
  assumes "0 \<le> c" "c + int n = level + 1" "level < int (length (givenSeq m))"
    and "n \<le> length (presses (touch m))"
    and "\<forall>k<n. presses (touch m) ! k = givenSeq m ! (nat c + k)"
  shows "\<exists>m'. checkButtons level c m = Inr (1, m') \<and> io_only m m' \<and>
           presses (touch m') = drop n (presses (touch m))"
  using assms
proof (induction n arbitrary: c m)
  case 0
  then have "\<not> c \<le> level" by simp
  then have "checkButtons level c m = Inr (1, m)" by (subst checkButtons.simps) simp
  then show ?case by (simp add: io_only_refl)
next
  case (Suc n)
  then obtain b bs where p: "presses (touch m) = b # bs"
    by (cases "presses (touch m)") auto
  from Suc.prems have "0 \<le> c" "c \<le> level" "c < int (length (givenSeq m))" by auto
  from checkButtons_turn [OF this p] obtain m2
    where io: "io_only m m2" and p2: "presses (touch m2) = bs"
      and ch: "checkButtons level c m =
             (if b \<noteq> givenSeq m ! nat c then Inr (0, m2)
              else checkButtons level (c + 1) m2)" by blast
  from io have s: "givenSeq m2 = givenSeq m" by (simp add: io_only_def)
  from Suc.prems(5) p have "b = givenSeq m ! nat c" by auto
  with ch have ch': "checkButtons level c m = checkButtons level (c + 1) m2" by simp
  have n: "nat (c + 1) = Suc (nat c)" using \<open>0 \<le> c\<close> by simp
  have "\<exists>m'. checkButtons level (c + 1) m2 = Inr (1, m') \<and> io_only m2 m' \<and>
           presses (touch m') = drop n (presses (touch m2))"
  proof (rule Suc.IH)
    show "0 \<le> c + 1" using \<open>0 \<le> c\<close> by simp
    show "c + 1 + int n = level + 1" using Suc.prems(2) by simp
    show "level < int (length (givenSeq m2))" using Suc.prems(3) s by simp
    show "n \<le> length (presses (touch m2))" using Suc.prems(4) p p2 by simp
    show "\<forall>k<n. presses (touch m2) ! k = givenSeq m2 ! (nat (c + 1) + k)"
      using Suc.prems(5) p p2 s n by auto
  qed
  then obtain m' where "checkButtons level (c + 1) m2 = Inr (1, m')" "io_only m2 m'"
    "presses (touch m') = drop n (presses (touch m2))" by blast
  with ch' io p p2 show ?case by (auto intro: io_only_trans)
qed

lemma presses_append: "presses (xs @ ys) = presses xs @ presses ys"
  by (induction xs rule: presses.induct) (auto split: option.splits)

lemma io_only_presses:
  assumes "io_only m m'" and "presses (touch m') = drop n (presses (touch m))"
    and "n \<le> length (presses (touch m))"
  shows "\<exists>used. touch m = used @ touch m' \<and> presses used = take n (presses (touch m))"
proof -
  from assms(1) obtain used where u: "touch m = used @ touch m'" by (auto simp: io_only_def)
  then have e: "presses (touch m) = presses used @ drop n (presses (touch m))"
    using assms(2) by (simp add: presses_append)
  then have "length (presses (touch m)) = length (presses used) + (length (presses (touch m)) - n)"
    by (metis length_append length_drop)
  with assms(3) have "length (presses used) = n" by simp
  with e have "presses used = take n (presses (touch m))"
    by (metis append_eq_conv_conj)
  with u show ?thesis by blast
qed

lemma checkSequence_wrong:
  assumes "checkButtons (diff m) 0 (emit [GrClearDisplay] m) = Inr (0, m1)"
  shows "checkSequence m = Inr (m1\<lparr>state := ERROR\<rparr>)"
  using assms by (simp add: checkSequence_def)

lemma checkSequence_right:
  assumes "checkButtons (diff m) 0 (emit [GrClearDisplay] m) = Inr (1, m1)"
  shows "checkSequence m =
     (if diff m < MAX_SEQ_LENGTH
      then Inr ((emit [GrClearDisplay, GrStringDrawCentered ''GOOD JOB!'' 51 32, GrFlush] m1)
                 \<lparr>diff := diff m + 1, state := PLAYSEQ\<rparr>)
      else Inr ((emit [GrClearDisplay, GrStringDrawCentered ''GOOD JOB!'' 51 32, GrFlush] m1)
                 \<lparr>state := CONGRATS\<rparr>))"
  using assms by (simp add: checkSequence_def Let_def)

lemma checkSequence_stops_at_wrong:
  assumes "int i \<le> diff m" and "i < length (givenSeq m)"
    and "i < length (presses (touch m))"
    and "\<forall>k<i. presses (touch m) ! k = givenSeq m ! k"
    and "presses (touch m) ! i \<noteq> givenSeq m ! i"
  shows "\<exists>m' used. checkSequence m = Inr m' \<and> state m' = ERROR \<and> diff m' = diff m \<and>
           givenSeq m' = givenSeq m \<and>
           touch m = used @ touch m' \<and> presses used = take (Suc i) (presses (touch m))"
proof -
  let ?m0 = "emit [GrClearDisplay] m"
  have io0: "io_only m ?m0" by (rule io_only_emit)
  have t0: "touch ?m0 = touch m" by (rule touch_emit)
  have s0: "givenSeq ?m0 = givenSeq m" using io0 by (simp add: io_only_def)
  have "\<exists>m1. checkButtons (diff m) 0 ?m0 = Inr (0, m1) \<and> io_only ?m0 m1 \<and>
           presses (touch m1) = drop (Suc i) (presses (touch ?m0))"
    by (rule checkButtons_mismatch) (use assms in \<open>simp_all add: t0 s0\<close>)
  then obtain m1 where ch: "checkButtons (diff m) 0 ?m0 = Inr (0, m1)"
    and io1: "io_only ?m0 m1"
    and p1: "presses (touch m1) = drop (Suc i) (presses (touch m))" by (auto simp: t0)
  from io0 io1 have io: "io_only m m1" by (rule io_only_trans)
  from io_only_presses [OF io p1] assms(3) obtain used
    where u: "touch m = used @ touch m1" "presses used = take (Suc i) (presses (touch m))"
    by auto
  from checkSequence_wrong [OF ch] have "checkSequence m = Inr (m1\<lparr>state := ERROR\<rparr>)" .
  moreover from io have "diff m1 = diff m" "givenSeq m1 = givenSeq m"
    by (simp_all add: io_only_def)
  ultimately show ?thesis using u by simp
qed

lemma checkSequence_io:
  assumes "checkSequence m = Inr m'"
  shows "\<exists>m1. io_only m m1 \<and> (m' = m1\<lparr>state := ERROR\<rparr> \<or> m' = m1\<lparr>state := CONGRATS\<rparr> \<or>
            m' = m1\<lparr>diff := diff m + 1, state := PLAYSEQ\<rparr>)"
proof -
  from assms obtain r m1 where ch: "checkButtons (diff m) 0 (emit [GrClearDisplay] m) = Inr (r, m1)"
    by (auto simp: checkSequence_def Let_def split: sum.splits)
  from checkButtons_io [OF ch] io_only_emit have io: "io_only m m1"
    by (blast intro: io_only_trans)
  let ?m2 = "emit [GrClearDisplay, GrStringDrawCentered ''GOOD JOB!'' 51 32, GrFlush] m1"
  have io2: "io_only m ?m2" using io io_only_emit by (blast intro: io_only_trans)
  from assms ch have "m' = m1\<lparr>state := ERROR\<rparr> \<or> m' = ?m2\<lparr>state := CONGRATS\<rparr> \<or>
            m' = ?m2\<lparr>diff := diff m + 1, state := PLAYSEQ\<rparr>"
    by (auto simp: checkSequence_def Let_def split: if_splits)
  with io io2 show ?thesis by blast
qed

lemma waitForX_io: "waitForX m = Inr m' \<Longrightarrow> io_only m m'"
proof (induction m rule: waitForX.induct)
  case (1 m)
  from "1.prems" obtain b m1 where g: "getButton m = Inr (b, m1)"
    by (subst (asm) waitForX.simps) (auto split: sum.splits)
  then have io: "io_only m m1" by (rule getButton_io)
  show ?case
  proof (cases "b = NULL_BUTTON \<or> b \<noteq> X")
    case True
    with "1.prems" g have "waitForX m1 = Inr m'" by (subst (asm) waitForX.simps) simp
    from "1.IH" [OF g refl True this] io show ?thesis by (blast intro: io_only_trans)
  next
    case False
    with "1.prems" g have "m' = m1" by (subst (asm) waitForX.simps) simp
    with io show ?thesis by simp
  qed
qed

lemma waitForX_never:
  "X \<notin> set (presses (touch m)) \<Longrightarrow> waitForX m = Inl Blocked"
proof (induction "presses (touch m)" arbitrary: m)
  case Nil
  then have "getButton m = Inl Blocked" by (simp add: getButton_no_press)
  then show ?case by (subst waitForX.simps) simp
next
  case (Cons b bs)
  from getButton_press_io [OF Cons.hyps(2) [symmetric]] obtain m1
    where g: "getButton m = Inr (b, m1)" and p: "presses (touch m1) = bs" by blast
  from Cons.prems Cons.hyps(2) have "b \<noteq> X" "X \<notin> set bs" by (metis list.set_intros)+
  with p have "waitForX m1 = Inl Blocked" by (intro Cons.hyps(1)) simp_all
  with g \<open>b \<noteq> X\<close> show ?case by (subst waitForX.simps) simp
qed

lemma waitForX_start:
  "presses (touch m) = pre @ X # post \<Longrightarrow> X \<notin> set pre \<Longrightarrow>
   \<exists>m'. waitForX m = Inr m' \<and> io_only m m' \<and> presses (touch m') = post"
proof (induction pre arbitrary: m)
  case Nil
  then have "presses (touch m) = X # post" by simp
  from getButton_press_io [OF this] obtain m1
    where g: "getButton m = Inr (X, m1)" and p: "presses (touch m1) = post"
      and io: "io_only m m1" by blast
  have "X \<noteq> NULL_BUTTON" by (simp add: button_defs)
  with g have "waitForX m = Inr m1" by (subst waitForX.simps) simp
  with p io show ?case by blast
next
  case (Cons b pre)
  then have "presses (touch m) = b # (pre @ X # post)" by simp
  from getButton_press_io [OF this] obtain m1
    where g: "getButton m = Inr (b, m1)" and p: "presses (touch m1) = pre @ X # post"
      and io: "io_only m m1" by blast
  from Cons.prems have "b \<noteq> X" "X \<notin> set pre" by auto
  from Cons.IH [OF p this(2)] obtain m' where "waitForX m1 = Inr m'" "io_only m1 m'"
    "presses (touch m') = post" by blast
  moreover from g \<open>b \<noteq> X\<close> have "waitForX m = waitForX m1" by (subst waitForX.simps) simp
  ultimately show ?case using io by (auto intro: io_only_trans)
qed

lemma io_only_dispWelcome: "io_only m (dispWelcome m)"
  by (simp add: dispWelcome_def io_only_emit)

lemma touch_dispWelcome: "touch (dispWelcome m) = touch m"
  by (simp add: dispWelcome_def touch_emit)

lemma io_only_countDown: "io_only m m1 \<Longrightarrow> io_only m ((countDown m1)\<lparr>state := state m\<rparr>)"
  by (auto simp: io_only_def countDown_def emit_def)

lemma playSequence_state: "playSequence m = Inr m' \<Longrightarrow> state m' = CHECSEQ"
  by (auto simp: playSequence_def Let_def split: sum.splits)

lemma checkSequence_state:
  assumes "checkSequence m = Inr m'"
  shows "state m' = PLAYSEQ \<or> state m' = CONGRATS \<or> state m' = ERROR"
proof -
  from checkSequence_io [OF assms] show ?thesis by auto
qed

lemma main_step_state:
  assumes "main_step m = Inr m'"
    and "state m \<in> {WELCOME, PLAYSEQ, CHECSEQ, ERROR, CONGRATS}"
  shows "state m' \<in> {WELCOME, PLAYSEQ, CHECSEQ, ERROR, CONGRATS}"
proof -
  consider "state m = WELCOME" | "state m = PLAYSEQ" | "state m = CHECSEQ"
    | "state m = ERROR" | "state m = CONGRATS" using assms(2) by auto
  then show ?thesis
  proof cases
    case 1
    with assms(1) obtain m1 where "m' = countDown m1"
      by (auto simp: main_step_def split: sum.splits)
    then show ?thesis by (simp add: countDown_def emit_def)
  next
    case 2
    with assms(1) have "playSequence m = Inr m'" by (simp add: main_step_def state_defs)
    then show ?thesis by (simp add: playSequence_state)
  next
    case 3
    with assms(1) have "checkSequence m = Inr m'" by (simp add: main_step_def state_defs)
    from checkSequence_state [OF this] show ?thesis by auto
  next
    case 4
    with assms(1) have "m' = errorMsg m" by (simp add: main_step_def state_defs)
    then show ?thesis by (simp add: errorMsg_def emit_def)
  next
    case 5
    with assms(1) have "m' = congratsMsg m" by (simp add: main_step_def state_defs)
    then show ?thesis by (simp add: congratsMsg_def emit_def)
  qed
qed

lemma main_loop_state:
  "main_loop n m = Inr m' \<Longrightarrow> state m \<in> {WELCOME, PLAYSEQ, CHECSEQ, ERROR, CONGRATS} \<Longrightarrow>
   state m' \<in> {WELCOME, PLAYSEQ, CHECSEQ, ERROR, CONGRATS}"
proof (induction n arbitrary: m)
  case 0
  then show ?case by simp
next
  case (Suc n)
  from Suc.prems(1) obtain m1 where s: "main_step m = Inr m1" and l: "main_loop n m1 = Inr m'"
    by (auto split: sum.splits)
  from main_step_state [OF s Suc.prems(2)] Suc.IH [OF l] show ?case by blast
qed

lemma playLEDs_plays:
  assumes "0 \<le> i" and "i \<le> level + 1" and "level < int (length sequence)"
    and "\<forall>k. nat i \<le> k \<and> k \<le> nat level \<longrightarrow> 0 \<le> sequence ! k \<and> sequence ! k < NUM_KEYS"
  shows "playLEDs sequence level i tr =
           Inr (tr @ concat (map (\<lambda>pad. blink level (ledMask ! nat pad))
                               (drop (nat i) (take (nat (level + 1)) sequence))))"
  using assms
proof (induction sequence level i tr rule: playLEDs.induct)
  case (1 sequence level i tr)
  show ?case
  proof (cases "i \<le> level")
    case False
    with "1.prems" have "i = level + 1" by simp
    moreover from False have "playLEDs sequence level i tr = Inr tr"
      by (subst playLEDs.simps) simp
    ultimately show ?thesis by simp
  next
    case True
    let ?pad = "sequence ! nat i"
    let ?l = "ledMask ! nat ?pad"
    from True "1.prems" have at: "seq_at sequence i = Inr ?pad" by (simp add: seq_at_def)
    from True "1.prems" have "0 \<le> ?pad \<and> ?pad < NUM_KEYS" by simp
    then have led: "ledMask_at ?pad = Inr ?l" by (simp add: ledMask_at_def)
    have step: "playLEDs sequence level i tr =
                  playLEDs sequence level (i + 1) (tr @ blink level ?l)"
      using True at led by (subst playLEDs.simps) simp
    have ih: "playLEDs sequence level (i + 1) (tr @ blink level ?l) =
           Inr ((tr @ blink level ?l) @ concat (map (\<lambda>pad. blink level (ledMask ! nat pad))
                               (drop (nat (i + 1)) (take (nat (level + 1)) sequence))))"
    proof (rule "1.IH" [OF True at led])
      show "0 \<le> i + 1" using "1.prems" by simp
      show "i + 1 \<le> level + 1" using True by simp
      show "level < int (length sequence)" by (rule "1.prems")
      show "\<forall>k. nat (i + 1) \<le> k \<and> k \<le> nat level \<longrightarrow> 0 \<le> sequence ! k \<and> sequence ! k < NUM_KEYS"
        using "1.prems" by auto
    qed
    have len: "nat i < length (take (nat (level + 1)) sequence)"
      using True "1.prems" by simp
    have "drop (nat i) (take (nat (level + 1)) sequence) =
            ?pad # drop (nat (i + 1)) (take (nat (level + 1)) sequence)"
      using Cons_nth_drop_Suc [OF len, symmetric] True "1.prems"
      by (simp add: nat_add_distrib)
    with step ih show ?thesis by simp
  qed
qed

lemma playSequence_plays:
  assumes "0 \<le> diff m" and "diff m < int (length (givenSeq m))"
    and "\<forall>k < nat (diff m). 0 \<le> givenSeq m ! k \<and> givenSeq m ! k < NUM_KEYS"
  shows "playSequence m =
     Inr (m\<lparr>state := CHECSEQ,
            givenSeq := (givenSeq m)[nat (diff m) := int (rand_src m (rand_calls m)) mod NUM_KEYS],
            rand_calls := Suc (rand_calls m),
            trace := trace m @ playingMsg @
              concat (map (\<lambda>pad. blink (diff m) (ledMask ! nat pad))
                (take (nat (diff m) + 1)
                   ((givenSeq m)[nat (diff m) := int (rand_src m (rand_calls m)) mod NUM_KEYS])))\<rparr>)"
proof -
  let ?r = "int (rand_src m (rand_calls m)) mod NUM_KEYS"
  let ?s = "(givenSeq m)[nat (diff m) := ?r]"
  let ?tr = "trace m @ playingMsg"
  have r: "0 \<le> ?r \<and> ?r < NUM_KEYS" by (simp add: NUM_KEYS_def)
  have st: "seq_store (givenSeq m) (diff m) ?r = Inr ?s" using assms by (simp add: seq_store_def)
  have "playLEDs ?s (diff m) 0 ?tr =
           Inr (?tr @ concat (map (\<lambda>pad. blink (diff m) (ledMask ! nat pad))
                               (drop (nat 0) (take (nat (diff m + 1)) ?s))))"
  proof (rule playLEDs_plays)
    show "(0::int) \<le> 0" by simp
    show "0 \<le> diff m + 1" using assms by simp
    show "diff m < int (length ?s)" using assms by simp
    show "\<forall>k. nat 0 \<le> k \<and> k \<le> nat (diff m) \<longrightarrow> 0 \<le> ?s ! k \<and> ?s ! k < NUM_KEYS"
    proof (intro allI impI)
      fix k assume k: "nat 0 \<le> k \<and> k \<le> nat (diff m)"
      show "0 \<le> ?s ! k \<and> ?s ! k < NUM_KEYS"
      proof (cases "k = nat (diff m)")
        case True
        with assms r show ?thesis by simp
      next
        case False
        with k assms show ?thesis by simp
      qed
    qed
  qed
  then have pl: "playLEDs ?s (diff m) 0 ?tr =
           Inr (?tr @ concat (map (\<lambda>pad. blink (diff m) (ledMask ! nat pad))
                               (take (nat (diff m) + 1) ?s)))"
    using assms by (simp add: nat_add_distrib)
  show ?thesis
    using st pl by (simp add: playSequence_def Let_def emit_def playingMsg_def)
qed


lemma drawn_range: "0 \<le> drawn m k \<and> drawn m k < NUM_KEYS"
  by (simp add: drawn_def NUM_KEYS_def)

lemma checkSequence_pass:
  assumes "0 \<le> diff m" and "diff m < int (length (givenSeq m))"
    and "presses (touch m) = take (nat (diff m) + 1) (givenSeq m) @ rest"
  shows "\<exists>m1. io_only m m1 \<and> presses (touch m1) = rest \<and>
           checkSequence m =
             (if diff m < MAX_SEQ_LENGTH then Inr (m1\<lparr>diff := diff m + 1, state := PLAYSEQ\<rparr>)
              else Inr (m1\<lparr>state := CONGRATS\<rparr>))"
proof -
  let ?m0 = "emit [GrClearDisplay] m"
  let ?n = "nat (diff m) + 1"
  have io0: "io_only m ?m0" by (rule io_only_emit)
  have t0: "touch ?m0 = touch m" by (rule touch_emit)
  have s0: "givenSeq ?m0 = givenSeq m" using io0 by (simp add: io_only_def)
  have len: "length (take ?n (givenSeq m)) = ?n" using assms by simp
  have "\<exists>m1. checkButtons (diff m) 0 ?m0 = Inr (1, m1) \<and> io_only ?m0 m1 \<and>
           presses (touch m1) = drop ?n (presses (touch ?m0))"
  proof (rule checkButtons_pass)
    show "(0::int) \<le> 0" by simp
    show "0 + int ?n = diff m + 1" using assms by simp
    show "diff m < int (length (givenSeq ?m0))" using assms s0 by simp
    show "?n \<le> length (presses (touch ?m0))" using assms(3) len by (simp add: t0)
    show "\<forall>k<?n. presses (touch ?m0) ! k = givenSeq ?m0 ! (nat 0 + k)"
      using assms(3) len by (simp add: t0 s0 nth_append)
  qed
  then obtain m1 where ch: "checkButtons (diff m) 0 ?m0 = Inr (1, m1)"
    and io1: "io_only ?m0 m1"
    and p1: "presses (touch m1) = rest" using assms(3) len by (auto simp: t0)
  let ?m2 = "emit [GrClearDisplay, GrStringDrawCentered ''GOOD JOB!'' 51 32, GrFlush] m1"
  have "io_only m ?m2" using io0 io1 io_only_emit by (blast intro: io_only_trans)
  moreover have "presses (touch ?m2) = rest" using p1 by (simp add: touch_emit)
  moreover note checkSequence_right [OF ch]
  ultimately show ?thesis by blast
qed

lemma main_loop_add:
  "main_loop (a + b) m = (case main_loop a m of Inl e \<Rightarrow> Inl e | Inr m' \<Rightarrow> main_loop b m')"
  by (induction a arbitrary: m) (auto split: sum.splits)

lemma one_round:
  assumes "state m = PLAYSEQ" and d: "0 \<le> diff m" "diff m < int (length (givenSeq m))"
    "diff m < MAX_SEQ_LENGTH"
    and pads: "\<forall>k < nat (diff m). 0 \<le> givenSeq m ! k \<and> givenSeq m ! k < NUM_KEYS"
    and p: "presses (touch m) =
              take (nat (diff m) + 1) ((givenSeq m)[nat (diff m) := drawn m 0]) @ rest"
  shows "\<exists>m'. main_loop 2 m = Inr m' \<and> state m' = PLAYSEQ \<and> diff m' = diff m + 1 \<and>
           givenSeq m' = (givenSeq m)[nat (diff m) := drawn m 0] \<and>
           rand_src m' = rand_src m \<and> rand_calls m' = Suc (rand_calls m) \<and>
           presses (touch m') = rest"
proof -
  let ?s = "(givenSeq m)[nat (diff m) := drawn m 0]"
  from playSequence_plays [OF d(1,2) pads] obtain m1
    where pl: "playSequence m = Inr m1" and f1: "state m1 = CHECSEQ" "givenSeq m1 = ?s"
      "diff m1 = diff m" "touch m1 = touch m" "rand_src m1 = rand_src m"
      "rand_calls m1 = Suc (rand_calls m)"
    by (simp add: drawn_def)
  have "\<exists>m2. io_only m1 m2 \<and> presses (touch m2) = rest \<and>
           checkSequence m1 =
             (if diff m1 < MAX_SEQ_LENGTH then Inr (m2\<lparr>diff := diff m1 + 1, state := PLAYSEQ\<rparr>)
              else Inr (m2\<lparr>state := CONGRATS\<rparr>))"
    by (rule checkSequence_pass) (use d p f1 in simp_all)
  then obtain m2 where io: "io_only m1 m2" and p2: "presses (touch m2) = rest"
    and ch: "checkSequence m1 = Inr (m2\<lparr>diff := diff m + 1, state := PLAYSEQ\<rparr>)"
    using d f1 by auto
  have "main_loop 2 m = Inr (m2\<lparr>diff := diff m + 1, state := PLAYSEQ\<rparr>)"
    using assms(1) pl f1(1) ch by (simp add: numeral_2_eq_2 main_step_def state_defs)
  with io p2 f1 show ?thesis by (simp add: io_only_def)
qed

lemma perfect_play_Suc:
  "perfect_play m (Suc n) = perfect_play m n @ map (drawn m) [0 ..< Suc n]"
  by (simp add: perfect_play_def)

lemma perfect_rounds:
  assumes "state m = PLAYSEQ" and "diff m = 0" and "n \<le> length (givenSeq m)"
    and "int n \<le> MAX_SEQ_LENGTH"
    and "presses (touch m) = perfect_play m n @ rest"
  shows "\<exists>m'. main_loop (2 * n) m = Inr m' \<and> state m' = PLAYSEQ \<and> diff m' = int n \<and>
           take n (givenSeq m') = map (drawn m) [0 ..< n] \<and>
           length (givenSeq m') = length (givenSeq m) \<and>
           rand_src m' = rand_src m \<and> rand_calls m' = rand_calls m + n \<and>
           presses (touch m') = rest"
  using assms
proof (induction n arbitrary: rest)
  case 0
  then show ?case by (simp add: perfect_play_def)
next
  case (Suc n)
  let ?next = "map (drawn m) [0 ..< Suc n]"
  from Suc.prems have "presses (touch m) = perfect_play m n @ (?next @ rest)"
    by (simp add: perfect_play_Suc)
  with Suc.prems have "\<exists>m'. main_loop (2 * n) m = Inr m' \<and> state m' = PLAYSEQ \<and>
           diff m' = int n \<and> take n (givenSeq m') = map (drawn m) [0 ..< n] \<and>
           length (givenSeq m') = length (givenSeq m) \<and>
           rand_src m' = rand_src m \<and> rand_calls m' = rand_calls m + n \<and>
           presses (touch m') = ?next @ rest"
    by (intro Suc.IH) simp_all
  then obtain m1 where l1: "main_loop (2 * n) m = Inr m1"
    and f1: "state m1 = PLAYSEQ" "diff m1 = int n"
      "take n (givenSeq m1) = map (drawn m) [0 ..< n]"
      "length (givenSeq m1) = length (givenSeq m)"
      "rand_src m1 = rand_src m" "rand_calls m1 = rand_calls m + n"
      "presses (touch m1) = ?next @ rest" by blast
  have n: "n < length (givenSeq m1)" using Suc.prems(3) f1 by simp
  have dr: "drawn m1 0 = drawn m n" using f1 by (simp add: drawn_def)
  let ?s = "(givenSeq m1)[n := drawn m n]"
  have nth: "givenSeq m1 ! k = drawn m k" if "k < n" for k
  proof -
    from that have "givenSeq m1 ! k = take n (givenSeq m1) ! k" by simp
    also have "\<dots> = drawn m k" using that by (simp add: f1)
    finally show ?thesis .
  qed
  have tk: "take (Suc n) ?s = ?next"
  proof -
    have "take (Suc n) ?s = take n ?s @ [?s ! n]"
      using n by (simp add: take_Suc_conv_app_nth)
    also have "\<dots> = take n (givenSeq m1) @ [drawn m n]" using n by simp
    also have "\<dots> = ?next" by (simp add: f1)
    finally show ?thesis .
  qed
  have "\<exists>m'. main_loop 2 m1 = Inr m' \<and> state m' = PLAYSEQ \<and> diff m' = diff m1 + 1 \<and>
           givenSeq m' = (givenSeq m1)[nat (diff m1) := drawn m1 0] \<and>
           rand_src m' = rand_src m1 \<and> rand_calls m' = Suc (rand_calls m1) \<and>
           presses (touch m') = rest"
  proof (rule one_round)
    show "state m1 = PLAYSEQ" by (rule f1)
    show "0 \<le> diff m1" by (simp add: f1)
    show "diff m1 < int (length (givenSeq m1))" using n by (simp add: f1)
    show "diff m1 < MAX_SEQ_LENGTH" using Suc.prems(4) by (simp add: f1)
    show "\<forall>k<nat (diff m1). 0 \<le> givenSeq m1 ! k \<and> givenSeq m1 ! k < NUM_KEYS"
      by (simp add: f1 nth drawn_range)
    show "presses (touch m1) =
            take (nat (diff m1) + 1) ((givenSeq m1)[nat (diff m1) := drawn m1 0]) @ rest"
      using tk by (simp add: f1 dr)
  qed
  then obtain m2 where l2: "main_loop 2 m1 = Inr m2"
    and f2: "state m2 = PLAYSEQ" "diff m2 = int n + 1" "givenSeq m2 = ?s"
      "rand_src m2 = rand_src m" "rand_calls m2 = Suc (rand_calls m + n)"
      "presses (touch m2) = rest"
    by (auto simp: f1 dr)
  have "main_loop (2 * Suc n) m = Inr m2"
    using main_loop_add [of "2 * n" 2 m] l1 l2 by simp
  moreover have "take (Suc n) (givenSeq m2) = ?next" using tk f2 by simp
  moreover have "length (givenSeq m2) = length (givenSeq m)" using f1 f2 by simp
  ultimately show ?case using f2 by simp
qed

lemma abx_presses: "presses (touch abx) = [0, 3, 2, 4]"
  by (simp add: abx_def button_defs)

lemma abx_wrong:
  "\<exists>m' used. checkSequence abx = Inr m' \<and> state m' = ERROR \<and> diff m' = diff abx \<and>
           givenSeq m' = givenSeq abx \<and>
           touch abx = used @ touch m' \<and> presses used = take (Suc 1) (presses (touch abx))"
  by (rule checkSequence_stops_at_wrong) (simp_all add: abx_presses, simp_all add: abx_def)

lemma replay_plays: "\<exists>m'. playSequence replay = Inr m'"
proof -
  have "\<exists>m'. playSequence replay = Inr m'"
    by (subst playSequence_plays) (simp_all add: replay_def NUM_KEYS_def less_Suc_eq numeral_2_eq_2)
  then show ?thesis .
qed

lemma power_on_X: "\<exists>m'. main_loop 1 (main_init [None, Some PAD1] id) = Inr m'"
proof -
  let ?m = "dispWelcome (main_init [None, Some PAD1] id)"
  have "presses (touch ?m) = [] @ X # []" by (simp add: touch_dispWelcome main_init_def)
  from waitForX_start [OF this] obtain m1 where "waitForX ?m = Inr m1" by auto
  then show ?thesis by (simp add: main_step_def main_init_def)
qed

lemma presses_replicate_PAD1: "presses (replicate n (Some PAD1)) = replicate n X"
  by (induction n) simp_all

lemma triangle_sum: "2 * (\<Sum>r<n. Suc r) = n * (n + 1)"
  by (induction n) simp_all

lemma perfect_play_const:
  assumes "\<forall>k. drawn m k = v"
  shows "perfect_play m n = replicate (\<Sum>r<n. Suc r) v"
proof (induction n)
  case 0
  show ?case by (simp add: perfect_play_def)
next
  case (Suc n)
  have "map (drawn m) xs = replicate (length xs) v" for xs
    using assms by (induction xs) simp_all
  from this [of "[0 ..< Suc n]"]
  have "map (drawn m) [0 ..< Suc n] = replicate (Suc n) v"
    by (simp del: upt_Suc replicate_Suc)
  with Suc show ?case
    by (simp add: perfect_play_Suc replicate_add [symmetric] del: upt_Suc replicate_Suc)
qed

lemma playSequence_overrun:
  "diff m = int (length (givenSeq m)) \<Longrightarrow> playSequence m = Inl SeqOutOfBounds"
  by (simp add: playSequence_def Let_def emit_def seq_store_def)

section \<open>The claims\<close>

subsection \<open>C4: the speed tiers\<close>

text \<open>
  C4. \<^verbatim>\<open>getSpeed\<close> is a total function of the difficulty alone. A difficulty in
  \<open>[0,13)\<close> gives the slow delay 2, one in \<open>[13,26)\<close> the medium delay 1, and one from 26
  on the fast delay 0. The delay never grows with the difficulty, and over the
  non-negative difficulties it changes at exactly two places, on reaching 13 and on
  reaching 26.
\<close>

theorem getSpeed_tiers:
  "(0 \<le> d \<and> d < 13 \<longrightarrow> getSpeed d = 2) \<and>
   (13 \<le> d \<and> d < 26 \<longrightarrow> getSpeed d = 1) \<and>
   (26 \<le> d \<longrightarrow> getSpeed d = 0) \<and>
   (d \<le> e \<longrightarrow> getSpeed e \<le> getSpeed d) \<and>
   (0 \<le> d \<longrightarrow> (getSpeed (d + 1) \<noteq> getSpeed d \<longleftrightarrow> d + 1 = 13 \<or> d + 1 = 26))"
  by (simp add: getSpeed_def)

theorem getSpeed_tiers_witness:
  "getSpeed 0 = 2 \<and> getSpeed 12 = 2 \<and> getSpeed 13 = 1 \<and> getSpeed 25 = 1 \<and>
   getSpeed 26 = 0 \<and> getSpeed 63 = 0 \<and> getSpeed 13 \<le> getSpeed 12 \<and>
   getSpeed (12 + 1) \<noteq> getSpeed 12 \<and> getSpeed (25 + 1) \<noteq> getSpeed 25 \<and>
   getSpeed (5 + 1) = getSpeed 5"
  using getSpeed_tiers [of 0 0] getSpeed_tiers [of 12 13] getSpeed_tiers [of 13 13]
    getSpeed_tiers [of 25 26] getSpeed_tiers [of 26 63] getSpeed_tiers [of 63 63]
    getSpeed_tiers [of 5 5]
  by simp

subsection \<open>C8: getButton returns a pad\<close>

text \<open>
  C8. \<^verbatim>\<open>getButton\<close> never returns \<^verbatim>\<open>NULL_BUTTON\<close>: either it is still polling when the
  touch history ends, or it returns a button number from 0 to 4. Whenever the history
  holds a touch of one of the five pads of \<^verbatim>\<open>address_list\<close>, it does return, with such a
  number; so every value \<^verbatim>\<open>checkSequence\<close> compares with the stored sequence is a pad.
\<close>

theorem getButton_valid:
  "(getButton m = Inl Blocked \<or>
      (\<exists>b m'. getButton m = Inr (b, m') \<and> 0 \<le> b \<and> b < NUM_KEYS \<and> b \<noteq> NULL_BUTTON)) \<and>
   ((\<exists>k \<in> set address_list. Some k \<in> set (touch m)) \<longrightarrow>
      (\<exists>b m'. getButton m = Inr (b, m') \<and> 0 \<le> b \<and> b < NUM_KEYS \<and> b \<noteq> NULL_BUTTON))"
proof (cases "presses (touch m)")
  case Nil
  then have "getButton m = Inl Blocked" by (rule getButton_no_press)
  moreover from Nil have "\<not> (\<exists>k \<in> set address_list. Some k \<in> set (touch m))"
    by (simp add: presses_Nil_iff)
  ultimately show ?thesis by simp
next
  case (Cons b bs)
  from getButton_press_io [OF Cons] obtain m' where "getButton m = Inr (b, m')" by blast
  moreover from Cons have "b \<in> set (presses (touch m))" by simp
  then have "0 \<le> b \<and> b < NUM_KEYS \<and> b \<noteq> NULL_BUTTON" by (rule presses_range)
  ultimately show ?thesis by blast
qed

theorem getButton_valid_witness:
  "(\<exists>k \<in> set address_list. Some k \<in> set [None, Some OtherElement, Some PAD3, Some PAD1]) \<and>
   (\<exists>b m'. getButton \<lparr>state = CHECSEQ, givenSeq = [2], diff = 0,
              touch = [None, Some OtherElement, Some PAD3, Some PAD1],
              rand_src = (\<lambda>n. 0), rand_calls = 1, trace = []\<rparr> = Inr (b, m') \<and>
            0 \<le> b \<and> b < NUM_KEYS \<and> b \<noteq> NULL_BUTTON)"
proof -
  have h: "\<exists>k \<in> set address_list. Some k \<in> set [None, Some OtherElement, Some PAD3, Some PAD1]"
    by (simp add: address_list_def)
  from h getButton_valid [of "\<lparr>state = CHECSEQ, givenSeq = [2], diff = 0,
              touch = [None, Some OtherElement, Some PAD3, Some PAD1],
              rand_src = (\<lambda>n. 0), rand_calls = 1, trace = []\<rparr>"]
  show ?thesis by simp
qed

subsection \<open>C3: the first wrong button ends the check\<close>

text \<open>
  C3. \<^verbatim>\<open>checkSequence\<close> compares in order from position 0 and stops at the first wrong
  button. If the player's presses agree with the stored sequence at every position
  below \<open>i\<close> and differ at position \<open>i\<close>, where \<open>i\<close> is at most the difficulty (and inside
  the array), then \<^verbatim>\<open>checkSequence\<close> returns with the state \<^verbatim>\<open>ERROR\<close>, the difficulty
  and the sequence as they were, and it has used up a prefix of the touch history
  holding exactly the first \<open>i + 1\<close> presses: nothing is asked for a later position.
\<close>

theorem checkSequence_mismatch:
  assumes "int i \<le> diff m" and "i < length (givenSeq m)"
    and "i < length (presses (touch m))"
    and "\<forall>k<i. presses (touch m) ! k = givenSeq m ! k"
    and "presses (touch m) ! i \<noteq> givenSeq m ! i"
  shows "\<exists>m' used. checkSequence m = Inr m' \<and> state m' = ERROR \<and> diff m' = diff m \<and>
           givenSeq m' = givenSeq m \<and>
           touch m = used @ touch m' \<and> presses used = take (Suc i) (presses (touch m))"
  using assms by (rule checkSequence_stops_at_wrong)

theorem checkSequence_mismatch_witness:
  "int 1 \<le> diff abx \<and> presses (touch abx) = [0, 3, 2, 4] \<and>
   (\<exists>m' used. checkSequence abx = Inr m' \<and> state m' = ERROR \<and> diff m' = 2 \<and>
      touch abx = used @ touch m' \<and> presses used = [0, 3])"
proof -
  have p: "presses (touch abx) = [0, 3, 2, 4]" by (simp add: abx_def button_defs)
  have "\<exists>m' used. checkSequence abx = Inr m' \<and> state m' = ERROR \<and> diff m' = diff abx \<and>
           givenSeq m' = givenSeq abx \<and>
           touch abx = used @ touch m' \<and> presses used = take (Suc 1) (presses (touch abx))"
    by (rule checkSequence_mismatch) (simp_all add: p, simp_all add: abx_def)
  then show ?thesis by (auto simp: p) (simp_all add: abx_def)
qed

subsection \<open>C7: only X leaves the welcome screen\<close>

text \<open>
  C7. In the state \<^verbatim>\<open>WELCOME\<close>, a turn of the main loop ends only through a press of
  X. While the touch history holds no press of X the machine keeps polling, whatever
  else is touched; when the presses are \<open>pre\<close>, none of them X, then X, then \<open>post\<close>, the
  turn returns after the countdown with the state \<^verbatim>\<open>PLAYSEQ\<close>, the presses of \<open>pre\<close>
  discarded, \<open>post\<close> still to come, and the difficulty and the sequence untouched.
\<close>

theorem welcome_waits_for_X:
  assumes "state m = WELCOME"
  shows "(X \<notin> set (presses (touch m)) \<longrightarrow> main_step m = Inl Blocked) \<and>
         (presses (touch m) = pre @ X # post \<and> X \<notin> set pre \<longrightarrow>
            (\<exists>m'. main_step m = Inr m' \<and> state m' = PLAYSEQ \<and> presses (touch m') = post \<and>
                  diff m' = diff m \<and> givenSeq m' = givenSeq m))"
proof (intro conjI impI)
  assume "X \<notin> set (presses (touch m))"
  then have "waitForX (dispWelcome m) = Inl Blocked"
    by (intro waitForX_never) (simp add: touch_dispWelcome)
  with assms show "main_step m = Inl Blocked" by (simp add: main_step_def)
next
  assume a: "presses (touch m) = pre @ X # post \<and> X \<notin> set pre"
  then have "presses (touch (dispWelcome m)) = pre @ X # post" by (simp add: touch_dispWelcome)
  from waitForX_start [OF this] a obtain m1
    where w: "waitForX (dispWelcome m) = Inr m1" and io1: "io_only (dispWelcome m) m1"
      and p: "presses (touch m1) = post" by blast
  from io_only_dispWelcome io1 have io: "io_only m m1" by (rule io_only_trans)
  from w assms have "main_step m = Inr (countDown m1)" by (simp add: main_step_def)
  moreover have "state (countDown m1) = PLAYSEQ" "touch (countDown m1) = touch m1"
    "diff (countDown m1) = diff m1" "givenSeq (countDown m1) = givenSeq m1"
    by (simp_all add: countDown_def emit_def)
  ultimately show "\<exists>m'. main_step m = Inr m' \<and> state m' = PLAYSEQ \<and>
      presses (touch m') = post \<and> diff m' = diff m \<and> givenSeq m' = givenSeq m"
    using p io by (simp add: io_only_def)
qed

theorem welcome_waits_for_X_witness:
  "state (main_init [None, Some PAD3, Some PAD1, Some PAD2] id) = WELCOME \<and>
   presses (touch (main_init [None, Some PAD3, Some PAD1, Some PAD2] id)) = [Octogon] @ X # [Square] \<and>
   X \<notin> set [Octogon] \<and>
   (\<exists>m'. main_step (main_init [None, Some PAD3, Some PAD1, Some PAD2] id) = Inr m' \<and>
      state m' = PLAYSEQ \<and> presses (touch m') = [Square]) \<and>
   state (main_init [None, Some PAD3, Some PAD5] id) = WELCOME \<and>
   X \<notin> set (presses (touch (main_init [None, Some PAD3, Some PAD5] id))) \<and>
   main_step (main_init [None, Some PAD3, Some PAD5] id) = Inl Blocked"
proof -
  let ?a = "main_init [None, Some PAD3, Some PAD1, Some PAD2] id"
  let ?b = "main_init [None, Some PAD3, Some PAD5] id"
  have a: "state ?a = WELCOME" "presses (touch ?a) = [Octogon] @ X # [Square]"
    "X \<notin> set [Octogon]"
    by (simp_all add: main_init_def button_defs)
  have b: "state ?b = WELCOME" "X \<notin> set (presses (touch ?b))"
    by (simp_all add: main_init_def button_defs)
  from a b welcome_waits_for_X [OF a(1), of "[Octogon]" "[Square]"]
    welcome_waits_for_X [OF b(1), of "[]" "[]"]
  show ?thesis by auto
qed

subsection \<open>C9: what the non-generating functions leave alone\<close>

text \<open>
  C9. \<^verbatim>\<open>checkSequence\<close> never writes the sequence array: of the variables of \<^verbatim>\<open>main\<close>
  it changes only the difficulty and the state (besides consuming touches and producing
  output). \<^verbatim>\<open>countDown\<close>, \<^verbatim>\<open>errorMsg\<close> and \<^verbatim>\<open>congratsMsg\<close> change only the state
  (besides producing output): the difficulty and the sequence array stay as they were.
\<close>

theorem frame_non_generating:
  "(checkSequence m = Inr m' \<longrightarrow>
      givenSeq m' = givenSeq m \<and>
      m' = m\<lparr>state := state m', diff := diff m', touch := touch m', trace := trace m'\<rparr>) \<and>
   countDown m = m\<lparr>state := PLAYSEQ, trace := trace (countDown m)\<rparr> \<and>
   errorMsg m = m\<lparr>state := WELCOME, trace := trace (errorMsg m)\<rparr> \<and>
   congratsMsg m = m\<lparr>state := WELCOME, trace := trace (congratsMsg m)\<rparr> \<and>
   diff (countDown m) = diff m \<and> givenSeq (countDown m) = givenSeq m \<and>
   diff (errorMsg m) = diff m \<and> givenSeq (errorMsg m) = givenSeq m \<and>
   diff (congratsMsg m) = diff m \<and> givenSeq (congratsMsg m) = givenSeq m"
proof -
  have "givenSeq m' = givenSeq m \<and>
      m' = m\<lparr>state := state m', diff := diff m', touch := touch m', trace := trace m'\<rparr>"
    if "checkSequence m = Inr m'"
  proof -
    from checkSequence_io [OF that] obtain m1 where "io_only m m1"
      and "m' = m1\<lparr>state := ERROR\<rparr> \<or> m' = m1\<lparr>state := CONGRATS\<rparr> \<or>
            m' = m1\<lparr>diff := diff m + 1, state := PLAYSEQ\<rparr>" by blast
    then show ?thesis by (auto simp: io_only_def)
  qed
  then show ?thesis by (simp add: countDown_def errorMsg_def congratsMsg_def emit_def)
qed

theorem frame_non_generating_witness:
  "\<exists>m'. checkSequence abx = Inr m' \<and> givenSeq m' = givenSeq abx \<and>
      m' = abx\<lparr>state := state m', diff := diff m', touch := touch m', trace := trace m'\<rparr>"
proof -
  from abx_wrong obtain m' where "checkSequence abx = Inr m'" by blast
  with frame_non_generating [of abx m'] show ?thesis by simp
qed

subsection \<open>C10: the state is one of the five defined values\<close>

text \<open>
  C10. The state starts as \<^verbatim>\<open>WELCOME\<close>. Each transition function, when it returns,
  has stored one of the five defined values: \<^verbatim>\<open>countDown\<close> stores \<^verbatim>\<open>PLAYSEQ\<close>,
  \<^verbatim>\<open>playSequence\<close> stores \<^verbatim>\<open>CHECSEQ\<close>, \<^verbatim>\<open>checkSequence\<close> stores \<^verbatim>\<open>PLAYSEQ\<close>, \<^verbatim>\<open>ERROR\<close>
  or \<^verbatim>\<open>CONGRATS\<close>, \<^verbatim>\<open>errorMsg\<close> and \<^verbatim>\<open>congratsMsg\<close> store \<^verbatim>\<open>WELCOME\<close>. So after any
  number of turns of the main loop from power-on the state is one of \<^verbatim>\<open>WELCOME\<close>,
  \<^verbatim>\<open>PLAYSEQ\<close>, \<^verbatim>\<open>CHECSEQ\<close>, \<^verbatim>\<open>ERROR\<close>, \<^verbatim>\<open>CONGRATS\<close>, that is 0 to 4; there is no
  stored countdown state.
\<close>

theorem state_tag_invariant:
  "state (main_init ts rnd) = WELCOME \<and>
   state (countDown m) = PLAYSEQ \<and>
   (playSequence m = Inr m' \<longrightarrow> state m' = CHECSEQ) \<and>
   (checkSequence m = Inr m' \<longrightarrow> state m' \<in> {PLAYSEQ, ERROR, CONGRATS}) \<and>
   state (errorMsg m) = WELCOME \<and>
   state (congratsMsg m) = WELCOME \<and>
   (main_loop n (main_init ts rnd) = Inr m' \<longrightarrow>
      state m' \<in> {WELCOME, PLAYSEQ, CHECSEQ, ERROR, CONGRATS} \<and>
      state m' \<in> {0, 1, 2, 3, 4})"
proof -
  have i: "state (main_init ts rnd) = WELCOME" by (simp add: main_init_def)
  have "state m' \<in> {WELCOME, PLAYSEQ, CHECSEQ, ERROR, CONGRATS}"
    if "main_loop n (main_init ts rnd) = Inr m'"
    using that by (rule main_loop_state) (simp add: i)
  moreover have "state m' \<in> {PLAYSEQ, ERROR, CONGRATS}" if "checkSequence m = Inr m'"
    using checkSequence_state [OF that] by auto
  ultimately show ?thesis
    by (auto simp: i playSequence_state countDown_def errorMsg_def congratsMsg_def emit_def)
       (auto simp: state_defs)
qed

theorem state_tag_invariant_witness:
  "(\<exists>m'. playSequence replay = Inr m' \<and> state m' = CHECSEQ) \<and>
   (\<exists>m'. checkSequence abx = Inr m' \<and> state m' \<in> {PLAYSEQ, ERROR, CONGRATS}) \<and>
   (\<exists>m'. main_loop 1 (main_init [None, Some PAD1] id) = Inr m' \<and>
      state m' \<in> {WELCOME, PLAYSEQ, CHECSEQ, ERROR, CONGRATS})"
proof -
  from replay_plays obtain m1 where 1: "playSequence replay = Inr m1" by blast
  from abx_wrong obtain m2 where 2: "checkSequence abx = Inr m2" by blast
  from power_on_X obtain m3 where 3: "main_loop 1 (main_init [None, Some PAD1] id) = Inr m3"
    by blast
  from 1 state_tag_invariant [of "[]" id replay m1 0] have "state m1 = CHECSEQ" by simp
  moreover from 2 state_tag_invariant [of "[]" id abx m2 0]
  have "state m2 \<in> {PLAYSEQ, ERROR, CONGRATS}" by simp
  moreover from 3 state_tag_invariant [of "[None, Some PAD1]" id abx m3 1]
  have "state m3 \<in> {WELCOME, PLAYSEQ, CHECSEQ, ERROR, CONGRATS}" by simp
  ultimately show ?thesis using 1 2 3 by blast
qed

subsection \<open>C5: playSequence draws one pad and plays the whole sequence\<close>

text \<open>
  C5. At a difficulty \<open>d\<close> inside the array, with pad numbers stored below \<open>d\<close>,
  \<^verbatim>\<open>playSequence\<close> calls \<^verbatim>\<open>rand\<close> exactly once, stores the pad it selects at index \<open>d\<close>
  of the sequence, and then plays the stored sequence from index 0 to \<open>d\<close> inclusive, in
  order: for each pad its LED is switched on, \<^verbatim>\<open>swDelay(getSpeed(d))\<close> runs, the LED is
  switched off and \<^verbatim>\<open>swDelay(getSpeed(d))\<close> runs again. It returns with the state
  \<^verbatim>\<open>CHECSEQ\<close> and nothing else changed.
\<close>

theorem playSequence_draws_and_plays:
  assumes "0 \<le> diff m" and "diff m < int (length (givenSeq m))"
    and "\<forall>k < nat (diff m). 0 \<le> givenSeq m ! k \<and> givenSeq m ! k < NUM_KEYS"
  shows "playSequence m =
     Inr (m\<lparr>state := CHECSEQ,
            givenSeq := (givenSeq m)[nat (diff m) := int (rand_src m (rand_calls m)) mod NUM_KEYS],
            rand_calls := Suc (rand_calls m),
            trace := trace m @
              [LedsOff, GrClearDisplay, GrStringDrawCentered ''Playing'' 51 24,
               GrStringDrawCentered ''Sequence!'' 51 40, GrFlush] @
              concat (map (\<lambda>pad. [LedOn (ledMask ! nat pad), SwDelay (getSpeed (diff m)),
                                   LedOff (ledMask ! nat pad), SwDelay (getSpeed (diff m))])
                (take (nat (diff m) + 1)
                   ((givenSeq m)[nat (diff m) := int (rand_src m (rand_calls m)) mod NUM_KEYS])))\<rparr>)"
proof -
  have b: "(\<lambda>pad. blink (diff m) (ledMask ! nat pad)) =
        (\<lambda>pad. [LedOn (ledMask ! nat pad), SwDelay (getSpeed (diff m)),
                 LedOff (ledMask ! nat pad), SwDelay (getSpeed (diff m))])"
    by (simp add: blink_def)
  from playSequence_plays [OF assms] show ?thesis
    unfolding b playingMsg_def .
qed

theorem playSequence_draws_and_plays_witness:
  "playSequence replay =
     Inr (replay\<lparr>state := CHECSEQ, givenSeq := [0, 1, 3] @ replicate 61 0, rand_calls := 4,
            trace := [LedsOff, GrClearDisplay, GrStringDrawCentered ''Playing'' 51 24,
                      GrStringDrawCentered ''Sequence!'' 51 40, GrFlush,
                      LedOn LED8, SwDelay 2, LedOff LED8, SwDelay 2,
                      LedOn LED7, SwDelay 2, LedOff LED7, SwDelay 2,
                      LedOn LED5, SwDelay 2, LedOff LED5, SwDelay 2]\<rparr>) \<and>
   playSequence faster =
     Inr (faster\<lparr>state := CHECSEQ, givenSeq := replicate 13 0 @ [3] @ replicate 50 0,
            rand_calls := 4,
            trace := [LedsOff, GrClearDisplay, GrStringDrawCentered ''Playing'' 51 24,
                      GrStringDrawCentered ''Sequence!'' 51 40, GrFlush] @
                     concat (replicate 13 [LedOn LED8, SwDelay 1, LedOff LED8, SwDelay 1]) @
                     [LedOn LED5, SwDelay 1, LedOff LED5, SwDelay 1]\<rparr>)"
proof -
  have r: "0 \<le> diff replay" "diff replay < int (length (givenSeq replay))"
    "\<forall>k < nat (diff replay). 0 \<le> givenSeq replay ! k \<and> givenSeq replay ! k < NUM_KEYS"
    by (simp_all add: replay_def NUM_KEYS_def less_Suc_eq numeral_2_eq_2)
  have f: "0 \<le> diff faster" "diff faster < int (length (givenSeq faster))"
    "\<forall>k < nat (diff faster). 0 \<le> givenSeq faster ! k \<and> givenSeq faster ! k < NUM_KEYS"
    by (simp_all add: faster_def NUM_KEYS_def)
  have u: "(replicate 64 (0::int))[13 := 3] = replicate 13 0 @ [3] @ replicate 50 0"
    by (simp add: list_eq_iff_nth_eq nth_list_update nth_append nth_Cons')
  have "playSequence replay =
     Inr (replay\<lparr>state := CHECSEQ, givenSeq := [0, 1, 3] @ replicate 61 0, rand_calls := 4,
            trace := [LedsOff, GrClearDisplay, GrStringDrawCentered ''Playing'' 51 24,
                      GrStringDrawCentered ''Sequence!'' 51 40, GrFlush,
                      LedOn LED8, SwDelay 2, LedOff LED8, SwDelay 2,
                      LedOn LED7, SwDelay 2, LedOff LED7, SwDelay 2,
                      LedOn LED5, SwDelay 2, LedOff LED5, SwDelay 2]\<rparr>)"
    using playSequence_draws_and_plays [OF r]
    by (simp add: replay_def NUM_KEYS_def ledMask_def numeral_3_eq_3 getSpeed_def)
  moreover have "playSequence faster =
     Inr (faster\<lparr>state := CHECSEQ, givenSeq := replicate 13 0 @ [3] @ replicate 50 0,
            rand_calls := 4,
            trace := [LedsOff, GrClearDisplay, GrStringDrawCentered ''Playing'' 51 24,
                      GrStringDrawCentered ''Sequence!'' 51 40, GrFlush] @
                     concat (replicate 13 [LedOn LED8, SwDelay 1, LedOff LED8, SwDelay 1]) @
                     [LedOn LED5, SwDelay 1, LedOff LED5, SwDelay 1]\<rparr>)"
    using playSequence_draws_and_plays [OF f]
    by (simp add: faster_def NUM_KEYS_def ledMask_def getSpeed_def u map_replicate)
  ultimately show ?thesis by (rule conjI)
qed

subsection \<open>C6: generation and checking, round after round\<close>

text \<open>
  C6. From the state \<^verbatim>\<open>PLAYSEQ\<close> at difficulty 0, when the player repeats each of \<open>n\<close>
  rounds correctly (\<open>n\<close> at most \<^verbatim>\<open>MAX_SEQ_LENGTH\<close> and the array length), the \<open>2 n\<close>
  turns of the main loop (\<^verbatim>\<open>playSequence\<close>, \<^verbatim>\<open>checkSequence\<close>, \<open>n\<close> times) return with
  the difficulty \<open>n\<close>, and the first \<open>n\<close> entries of the sequence are, position by
  position, the pads the \<open>n\<close> calls of \<^verbatim>\<open>rand\<close> selected, in the order drawn.
\<close>

theorem round_trip:
  assumes "state m = PLAYSEQ" and "diff m = 0" and "n \<le> length (givenSeq m)"
    and "int n \<le> MAX_SEQ_LENGTH"
    and "presses (touch m) = perfect_play m n @ rest"
  shows "\<exists>m'. main_loop (2 * n) m = Inr m' \<and> state m' = PLAYSEQ \<and> diff m' = int n \<and>
           take n (givenSeq m') = map (drawn m) [0 ..< n] \<and>
           length (givenSeq m') = length (givenSeq m) \<and>
           rand_src m' = rand_src m \<and> rand_calls m' = rand_calls m + n \<and>
           presses (touch m') = rest"
  using assms by (rule perfect_rounds)

theorem round_trip_witness:
  "presses (touch fresh) = perfect_play fresh 2 @ [X] \<and>
   (\<exists>m'. main_loop 4 fresh = Inr m' \<and> state m' = PLAYSEQ \<and> diff m' = 2 \<and>
      take 2 (givenSeq m') = [Octogon, Triangle] \<and> presses (touch m') = [X])"
proof -
  have d: "map (drawn fresh) [0 ..< 2] = [Octogon, Triangle]"
    by (simp add: drawn_def fresh_def NUM_KEYS_def button_defs upt_rec)
  have p: "presses (touch fresh) = perfect_play fresh 2 @ [X]"
    by (simp add: perfect_play_def drawn_def fresh_def NUM_KEYS_def button_defs upt_rec)
  have "\<exists>m'. main_loop (2 * 2) fresh = Inr m' \<and> state m' = PLAYSEQ \<and> diff m' = int 2 \<and>
           take 2 (givenSeq m') = map (drawn fresh) [0 ..< 2] \<and>
           length (givenSeq m') = length (givenSeq fresh) \<and>
           rand_src m' = rand_src fresh \<and> rand_calls m' = rand_calls fresh + 2 \<and>
           presses (touch m') = [X]"
    by (rule round_trip [OF _ _ _ _ p]) (simp_all add: fresh_def MAX_SEQ_LENGTH_def)
  with p d show ?thesis by auto
qed

subsection \<open>C2: the messages do not reset the game\<close>

text \<open>
  C2, as claimed: \<^verbatim>\<open>errorMsg\<close> and \<^verbatim>\<open>congratsMsg\<close> reset the difficulty to 0 and clear
  the sequence. They do not: after a round lost at difficulty 2 with the sequence
  X, Square, Octogon, either function leaves the difficulty 2 and the sequence in place.
\<close>

theorem no_reset_counterexample:
  "\<not> (diff (errorMsg lost) = 0) \<and> \<not> (diff (congratsMsg lost) = 0) \<and>
   take 3 (givenSeq (errorMsg lost)) = [0, 1, 2] \<and>
   take 3 (givenSeq (congratsMsg lost)) = [0, 1, 2]"
  by (simp add: lost_def errorMsg_def congratsMsg_def emit_def)

text \<open>
  C2, amended: \<^verbatim>\<open>errorMsg\<close> and \<^verbatim>\<open>congratsMsg\<close> set the state to \<^verbatim>\<open>WELCOME\<close> and
  leave the difficulty and the stored sequence as they were, whatever they were.
\<close>

theorem messages_keep_game:
  "state (errorMsg m) = WELCOME \<and> diff (errorMsg m) = diff m \<and>
   givenSeq (errorMsg m) = givenSeq m \<and>
   state (congratsMsg m) = WELCOME \<and> diff (congratsMsg m) = diff m \<and>
   givenSeq (congratsMsg m) = givenSeq m"
  by (simp add: errorMsg_def congratsMsg_def emit_def)

subsection \<open>C1: the sequence of full length\<close>

text \<open>
  C1 says that a correct round at the last level, difficulty 63, leads to \<^verbatim>\<open>CONGRATS\<close>,
  so that \<^verbatim>\<open>playSequence\<close> never indexes the sequence at 64. The code tests
  \<^verbatim>\<open>level < MAX_SEQ_LENGTH\<close> instead. From power-on, with a generator that always
  selects X and a player who touches X to start and then repeats all 64 rounds
  correctly (2080 touches), the 129th turn of the main loop returns with the state
  \<^verbatim>\<open>PLAYSEQ\<close> and the difficulty 64, and the 130th, \<^verbatim>\<open>playSequence\<close>, stores at index 64
  of the 64-element array.
\<close>

theorem capacity_overrun:
  "(\<exists>m'. main_loop 129 (main_init (replicate 2081 (Some PAD1)) (\<lambda>n. 0)) = Inr m' \<and>
      state m' = PLAYSEQ \<and> diff m' = MAX_SEQ_LENGTH \<and>
      int (length (givenSeq m')) = MAX_SEQ_LENGTH) \<and>
   main_loop 130 (main_init (replicate 2081 (Some PAD1)) (\<lambda>n. 0)) = Inl SeqOutOfBounds"
proof -
  let ?init = "main_init (replicate 2081 (Some PAD1)) (\<lambda>n. 0)"
  have "replicate 2081 X = X # replicate 2080 X"
    by (simp add: replicate_Suc [symmetric] del: replicate_Suc)
  then have "presses (touch (dispWelcome ?init)) = [] @ X # replicate 2080 X"
    by (simp add: touch_dispWelcome main_init_def presses_replicate_PAD1)
  from waitForX_start [OF this] obtain m1
    where w: "waitForX (dispWelcome ?init) = Inr m1"
      and io1: "io_only (dispWelcome ?init) m1"
      and p1: "presses (touch m1) = replicate 2080 X" by auto
  from io_only_dispWelcome io1 have io: "io_only ?init m1" by (rule io_only_trans)
  define m2 where "m2 = countDown m1"
  have f2: "state m2 = PLAYSEQ" "diff m2 = 0" "givenSeq m2 = replicate 64 0"
    "rand_src m2 = (\<lambda>n. 0)" "presses (touch m2) = replicate 2080 X"
    using io p1
    by (simp_all add: m2_def countDown_def emit_def io_only_def main_init_def MAX_SEQ_LENGTH_def)
  have l1: "main_loop 1 ?init = Inr m2"
    using w by (simp add: main_step_def main_init_def m2_def)
  have "\<forall>k. drawn m2 k = X" by (simp add: drawn_def f2 X_def)
  then have "perfect_play m2 64 = replicate (\<Sum>r<64. Suc r) X" by (rule perfect_play_const)
  moreover have "(\<Sum>r<64. Suc r) = (2080::nat)" using triangle_sum [of 64] by simp
  ultimately have pp: "presses (touch m2) = perfect_play m2 64 @ []" by (simp add: f2)
  have "\<exists>m'. main_loop (2 * 64) m2 = Inr m' \<and> state m' = PLAYSEQ \<and> diff m' = int 64 \<and>
           take 64 (givenSeq m') = map (drawn m2) [0 ..< 64] \<and>
           length (givenSeq m') = length (givenSeq m2) \<and>
           rand_src m' = rand_src m2 \<and> rand_calls m' = rand_calls m2 + 64 \<and>
           presses (touch m') = []"
    by (rule perfect_rounds [OF _ _ _ _ pp]) (simp_all add: f2 MAX_SEQ_LENGTH_def)
  then obtain m3 where l2: "main_loop 128 m2 = Inr m3"
    and f3: "state m3 = PLAYSEQ" "diff m3 = 64" "length (givenSeq m3) = 64"
    by (auto simp: f2)
  have l129: "main_loop 129 ?init = Inr m3"
    using main_loop_add [of 1 128 ?init] l1 l2 by simp
  have "playSequence m3 = Inl SeqOutOfBounds"
    by (rule playSequence_overrun) (simp add: f3)
  then have "main_loop 1 m3 = Inl SeqOutOfBounds"
    using f3 by (simp add: main_step_def state_defs)
  then have "main_loop 130 ?init = Inl SeqOutOfBounds"
    using main_loop_add [of 129 1 ?init] l129 by simp
  with l129 f3 show ?thesis by (simp add: MAX_SEQ_LENGTH_def)
qed

end
